theory Spec2Isabelle
  imports Main "HOL-Library.Monad_Syntax" "HOL-Library.Multiset" "HOL-Library.Sublist"
begin

section \<open>The Go library functions that main.go calls\<close>

text \<open>
  Go strings are byte sequences; they are modelled as \<^typ>\<open>string\<close>. A run-time panic
  (the only one this program could raise is an index out of range) is the value
  \<open>None\<close> of an option type.
\<close>

definition index :: "'a list \<Rightarrow> nat \<Rightarrow> 'a option" where
  "index xs i = (if i < length xs then Some (xs ! i) else None)"

text \<open>\<open>strings.HasPrefix(s, prefix)\<close>: \<open>len(s) >= len(prefix) && s[:len(prefix)] == prefix\<close>.\<close>

definition HasPrefix :: "string \<Rightarrow> string \<Rightarrow> bool" where
  "HasPrefix s p \<longleftrightarrow> length p \<le> length s \<and> take (length p) s = p"

text \<open>\<open>strings.TrimPrefix(s, prefix)\<close>: \<open>s[len(prefix):]\<close> when the prefix is there, else \<open>s\<close>.\<close>

definition TrimPrefix :: "string \<Rightarrow> string \<Rightarrow> string" where
  "TrimPrefix s p = (if HasPrefix s p then drop (length p) s else s)"

text \<open>
  \<open>strings.Split(s, sep)\<close> for a separator of one byte: the pieces of \<open>s\<close> between the
  occurrences of \<open>sep\<close>, one more piece than there are separators (so never empty).
\<close>

fun Split :: "string \<Rightarrow> char \<Rightarrow> string list" where
  "Split [] sep = [[]]"
| "Split (c # s) sep =
     (if c = sep then [] # Split s sep
      else (case Split s sep of
              [] \<Rightarrow> [[c]]
            | p # ps \<Rightarrow> (c # p) # ps))"

section \<open>The URL translator\<close>

text \<open>
  \<open>uiURL\<close> of main.go. Every slice access \<open>parts[i]\<close> goes through \<^const>\<open>index\<close>, so a
  panic of the Go code would be the result \<open>None\<close>. A \<open>case\<close> of the Go \<open>switch\<close> whose
  \<open>if\<close> fails leaves the switch and reaches the last \<open>return\<close>.
\<close>

definition uiURL :: "string \<Rightarrow> string option" where
  "uiURL apiURL =
     (let prefix = ''https://api.github.com/repos/'' in
      if \<not> HasPrefix apiURL prefix then Some apiURL
      else
        let path = TrimPrefix apiURL prefix;
            parts = Split path CHR ''/'' in
        if length parts < 3 then Some apiURL
        else do {
          owner \<leftarrow> index parts 0;
          repo \<leftarrow> index parts 1;
          kind \<leftarrow> index parts 2;
          let repoPath = owner @ ''/'' @ repo;
          let fallback = Some (''https://github.com/'' @ repoPath);
          if kind = ''pulls'' then
            (if length parts \<ge> 4
             then do { p3 \<leftarrow> index parts 3;
                       Some (''https://github.com/'' @ repoPath @ ''/pull/'' @ p3) }
             else fallback)
          else if kind = ''issues'' then
            (if length parts \<ge> 4
             then do { p3 \<leftarrow> index parts 3;
                       Some (''https://github.com/'' @ repoPath @ ''/issues/'' @ p3) }
             else fallback)
          else if kind = ''commits'' then
            (if length parts \<ge> 4
             then do { p3 \<leftarrow> index parts 3;
                       Some (''https://github.com/'' @ repoPath @ ''/commit/'' @ p3) }
             else fallback)
          else if kind = ''releases'' then
            (if length parts \<ge> 4
             then do { p3 \<leftarrow> index parts 3;
                       Some (''https://github.com/'' @ repoPath @ ''/releases/'' @ p3) }
             else fallback)
          else Some (''https://github.com/'' @ repoPath)
        })"


section \<open>The data model\<close>

text \<open>
  The structs of the API client, with every pointer field as an option (\<open>None\<close> is
  \<open>nil\<close>), and the accessors \<open>Get...\<close>, which return the zero value on a \<open>nil\<close> receiver
  or field. A last-updated time is an instant on the integer line, counted from the zero
  \<open>time.Time\<close>; \<open>t.After(u)\<close> is \<open>u < t\<close>.
\<close>

type_synonym 'a ptr = "'a option"

record NotificationSubject =
  Title :: "string ptr"
  URL :: "string ptr"
  Type :: "string ptr"

record Repository =
  FullName :: "string ptr"

record Notification =
  ID :: "string ptr"
  Repository :: "Repository ptr"
  Subject :: "NotificationSubject ptr"
  UpdatedAt :: "int ptr"

definition GetTitle :: "NotificationSubject ptr \<Rightarrow> string" where
  "GetTitle s = (case s of None \<Rightarrow> [] | Some x \<Rightarrow> (case Title x of None \<Rightarrow> [] | Some t \<Rightarrow> t))"

definition GetURL :: "NotificationSubject ptr \<Rightarrow> string" where
  "GetURL s = (case s of None \<Rightarrow> [] | Some x \<Rightarrow> (case URL x of None \<Rightarrow> [] | Some t \<Rightarrow> t))"

definition GetType :: "NotificationSubject ptr \<Rightarrow> string" where
  "GetType s = (case s of None \<Rightarrow> [] | Some x \<Rightarrow> (case Type x of None \<Rightarrow> [] | Some t \<Rightarrow> t))"

definition GetFullName :: "Repository ptr \<Rightarrow> string" where
  "GetFullName r = (case r of None \<Rightarrow> [] | Some x \<Rightarrow> (case FullName x of None \<Rightarrow> [] | Some t \<Rightarrow> t))"

definition GetID :: "Notification ptr \<Rightarrow> string" where
  "GetID n = (case n of None \<Rightarrow> [] | Some x \<Rightarrow> (case ID x of None \<Rightarrow> [] | Some t \<Rightarrow> t))"

definition GetSubject :: "Notification ptr \<Rightarrow> NotificationSubject ptr" where
  "GetSubject n = (case n of None \<Rightarrow> None | Some x \<Rightarrow> Subject x)"

definition GetRepository :: "Notification ptr \<Rightarrow> Repository ptr" where
  "GetRepository n = (case n of None \<Rightarrow> None | Some x \<Rightarrow> Repository x)"

definition GetUpdatedAt :: "Notification ptr \<Rightarrow> int" where
  "GetUpdatedAt n = (case n of None \<Rightarrow> 0 | Some x \<Rightarrow> (case UpdatedAt x of None \<Rightarrow> 0 | Some t \<Rightarrow> t))"

section \<open>The classifier\<close>

definition isRenovate :: "Notification ptr \<Rightarrow> bool" where
  "isRenovate notification =
     (let subject = GetSubject notification in
      if HasPrefix (GetTitle subject) ''chore(deps)'' then True
      else if HasPrefix (GetTitle subject) ''fix(deps)'' then True
      else False)"

section \<open>Sorting, lower-casing, trimming and reading a line\<close>

text \<open>
  The parts of the Go library that are not written out here are parameters of the
  model: what \<open>sort.Slice\<close> does with more than 12 elements, and the Unicode paths of
  \<open>strings.ToLower\<close> and \<open>strings.TrimSpace\<close>, which are only entered on a byte
  \<open>\<ge> 0x80\<close>.
\<close>

record golib =
  pdqsort_long :: "(Notification ptr \<Rightarrow> Notification ptr \<Rightarrow> bool) \<Rightarrow> Notification ptr list \<Rightarrow> Notification ptr list"
  Map_ToLower :: "string \<Rightarrow> string"
  TrimFunc_IsSpace :: "string \<Rightarrow> string"
  TrimRightFunc_IsSpace :: "string \<Rightarrow> string"

text \<open>
  \<open>insertionSort_func\<close> of package sort: element \<open>i\<close> is swapped with its left neighbour
  as long as it is \<open>less\<close> than that neighbour. \<open>sift\<close> is this inner loop, on the
  already sorted prefix held in reverse (nearest neighbour first).
\<close>

fun sift :: "('a \<Rightarrow> 'a \<Rightarrow> bool) \<Rightarrow> 'a \<Rightarrow> 'a list \<Rightarrow> 'a list" where
  "sift lessf x [] = [x]"
| "sift lessf x (y # rp) = (if lessf x y then y # sift lessf x rp else x # y # rp)"

definition insertionSort_func :: "('a \<Rightarrow> 'a \<Rightarrow> bool) \<Rightarrow> 'a list \<Rightarrow> 'a list" where
  "insertionSort_func lessf xs = rev (foldl (\<lambda>rp x. sift lessf x rp) [] xs)"

text \<open>
  \<open>sort.Slice\<close>: \<open>pdqsort_func\<close> sorts a range of at most 12 elements by insertion and
  partitions a longer one.
\<close>

definition sort_Slice ::
  "golib \<Rightarrow> (Notification ptr \<Rightarrow> Notification ptr \<Rightarrow> bool) \<Rightarrow> Notification ptr list \<Rightarrow> Notification ptr list" where
  "sort_Slice L lessf xs =
     (if length xs \<le> 12 then insertionSort_func lessf xs else pdqsort_long L lessf xs)"

definition slices_Reverse :: "'a list \<Rightarrow> 'a list" where
  "slices_Reverse xs = rev xs"

definition RuneSelf :: nat where
  "RuneSelf = 128"

definition lower_byte :: "char \<Rightarrow> char" where
  "lower_byte c =
     (if 65 \<le> (of_char c :: nat) \<and> (of_char c :: nat) \<le> 90 then char_of ((of_char c :: nat) + 32) else c)"

text \<open>\<open>strings.ToLower\<close>: byte by byte on an ASCII string, by runes otherwise.\<close>

definition ToLower :: "golib \<Rightarrow> string \<Rightarrow> string" where
  "ToLower L s =
     (if \<forall>c \<in> set s. (of_char c :: nat) < RuneSelf then map lower_byte s else Map_ToLower L s)"

definition asciiSpace :: "char \<Rightarrow> bool" where
  "asciiSpace c \<longleftrightarrow> c \<in> {CHR 0x09, CHR 0x0A, CHR 0x0B, CHR 0x0C, CHR 0x0D, CHR '' ''}"

text \<open>
  \<open>strings.TrimSpace\<close>: ASCII white space is dropped from the front, then from the back;
  the first byte \<open>\<ge> 0x80\<close> met on the way hands the rest over to the Unicode functions.
\<close>

fun TrimSpace_stop :: "golib \<Rightarrow> string \<Rightarrow> string" where
  "TrimSpace_stop L [] = []"
| "TrimSpace_stop L (c # r) =
     (if RuneSelf \<le> of_char c then TrimRightFunc_IsSpace L (rev (c # r))
      else if asciiSpace c then TrimSpace_stop L r
      else rev (c # r))"

fun TrimSpace :: "golib \<Rightarrow> string \<Rightarrow> string" where
  "TrimSpace L [] = []"
| "TrimSpace L (c # s) =
     (if RuneSelf \<le> of_char c then TrimFunc_IsSpace L (c # s)
      else if asciiSpace c then TrimSpace L s
      else TrimSpace_stop L (rev (c # s)))"

text \<open>
  \<open>reader.ReadString(delim)\<close> on the bytes still to come on standard input: the bytes up
  to and including the first \<open>delim\<close>, or all of them when the input ends before one
  (the error is dropped by the caller). The second component is what stays unread.
\<close>

fun ReadString :: "string \<Rightarrow> char \<Rightarrow> string \<times> string" where
  "ReadString [] delim = ([], [])"
| "ReadString (c # s) delim =
     (if c = delim then ([c], s)
      else (case ReadString s delim of (line, rest) \<Rightarrow> (c # line, rest)))"

section \<open>The remote API, the terminal and the run\<close>

datatype error = Error string

text \<open>
  The two API calls, as transitions of the remote side's state \<open>'s\<close>: the list call takes
  the page number of the request (all other options are constants) and returns an error
  or a page with the response's \<open>NextPage\<close>.
\<close>

record 's Client =
  ListRepositoryNotifications :: "'s \<Rightarrow> int \<Rightarrow> (error + (Notification ptr list \<times> int)) \<times> 's"
  MarkThreadRead :: "'s \<Rightarrow> string \<Rightarrow> error option \<times> 's"

text \<open>What the run does to the outside, in order: API calls, lines printed, log lines.\<close>

datatype event =
    CallList int
  | CallMarkThreadRead string
  | PrintNoUnread
  | PrintNoUnreadParty
  | PrintSeparator
  | PrintAutoApproving string
  | PrintNotification string string
  | PrintRepo string
  | PrintType string
  | PrintURL string
  | PrintUpdated int
  | PrintPrompt
  | PrintSkipped
  | PrintMarked
  | PrintDone
  | LogFailedToMark error

record 's world =
  remote :: 's
  stdin :: string
  events :: "event list"

definition emit :: "event \<Rightarrow> 's world \<Rightarrow> 's world" where
  "emit e w = w\<lparr>events := events w @ [e]\<rparr>"

datatype fatal = TokenRequired | ErrorFetching error

datatype 's outcome = Returned "'s world" | Fatal fatal "'s world" | Panic

definition markAsRead :: "'s Client \<Rightarrow> Notification ptr \<Rightarrow> 's world \<Rightarrow> 's world" where
  "markAsRead client notification w =
     (case MarkThreadRead client (remote w) (GetID notification) of
        (err, s') \<Rightarrow>
          (let w1 = emit (CallMarkThreadRead (GetID notification)) (w\<lparr>remote := s'\<rparr>) in
           case err of
             Some e \<Rightarrow> emit (LogFailedToMark e) w1
           | None \<Rightarrow> emit PrintMarked w1))"

text \<open>
  The loop of \<open>fetchAllUnread\<close>. It has no bound of its own, so it is a partial function:
  \<open>None\<close> means that the loop never returns.
\<close>

partial_function (option) fetch_loop ::
  "'s Client \<Rightarrow> int \<Rightarrow> Notification ptr list \<Rightarrow> 's world \<Rightarrow> ((error + Notification ptr list) \<times> 's world) option" where
  "fetch_loop client page all w =
     (case ListRepositoryNotifications client (remote w) page of
        (r, s') \<Rightarrow>
          (let w1 = emit (CallList page) (w\<lparr>remote := s'\<rparr>) in
           case r of
             Inl err \<Rightarrow> Some (Inl err, w1)
           | Inr (ns, NextPage) \<Rightarrow>
               (let all1 = all @ ns in
                if NextPage = 0 then Some (Inr all1, w1)
                else fetch_loop client NextPage all1 w1)))"

declare fetch_loop.simps [code]

definition fetchAllUnread ::
  "'s Client \<Rightarrow> 's world \<Rightarrow> ((error + Notification ptr list) \<times> 's world) option" where
  "fetchAllUnread client w = fetch_loop client 1 [] w"

text \<open>The less function that \<open>main\<close> hands to \<open>sort.Slice\<close>.\<close>

definition updated_After :: "Notification ptr \<Rightarrow> Notification ptr \<Rightarrow> bool" where
  "updated_After a b \<longleftrightarrow> GetUpdatedAt b < GetUpdatedAt a"

text \<open>One pass through the body of the review loop, for the notification \<open>n\<close>.\<close>

definition review :: "golib \<Rightarrow> 's Client \<Rightarrow> Notification ptr \<Rightarrow> 's world \<Rightarrow> 's world option" where
  "review L client n w =
     (let subject = GetSubject n;
          repo = GetRepository n;
          w1 = emit PrintSeparator w in
      if isRenovate n then
        Some (markAsRead client n (emit (PrintAutoApproving (GetTitle subject)) w1))
      else do {
        let w2 = emit (PrintNotification (GetTitle subject) (GetID n)) w1;
        let w3 = emit (PrintRepo (GetFullName repo)) w2;
        let w4 = emit (PrintType (GetType subject)) w3;
        url \<leftarrow> uiURL (GetURL subject);
        let w5 = emit (PrintURL url) w4;
        let w6 = emit (PrintUpdated (GetUpdatedAt n)) w5;
        let w7 = emit PrintPrompt w6;
        let (text, rest) = ReadString (stdin w7) CHR 0x0A;
        let w8 = w7\<lparr>stdin := rest\<rparr>;
        let text = TrimSpace L (ToLower L text);
        if text = ''y'' \<or> text = ''yes'' then Some (markAsRead client n w8)
        else Some (emit PrintSkipped w8)
      })"

text \<open>
  \<open>for i := len(notifications) - 1; i >= 0; i--\<close>: the counter of \<open>review_loop\<close> is
  \<open>i + 1\<close>, and the loop starts at \<open>length notifications\<close>.
\<close>

fun review_loop :: "golib \<Rightarrow> 's Client \<Rightarrow> Notification ptr list \<Rightarrow> nat \<Rightarrow> 's world \<Rightarrow> 's world option" where
  "review_loop L client notifications 0 w = Some w"
| "review_loop L client notifications (Suc i) w =
     do {
       n \<leftarrow> index notifications i;
       w' \<leftarrow> review L client n w;
       review_loop L client notifications i w'
     }"

text \<open>
  \<open>main\<close>, from the token read from the environment on. \<open>None\<close>: the fetch never returns.
\<close>

definition main :: "golib \<Rightarrow> 's Client \<Rightarrow> string \<Rightarrow> 's world \<Rightarrow> 's outcome option" where
  "main L client token w =
     (if token = [] then Some (Fatal TokenRequired w)
      else
        (case fetchAllUnread client w of
           None \<Rightarrow> None
         | Some (Inl err, w1) \<Rightarrow> Some (Fatal (ErrorFetching err) w1)
         | Some (Inr fetched, w1) \<Rightarrow>
             if length fetched = 0 then Some (Returned (emit PrintNoUnread w1))
             else
               (let notifications = slices_Reverse (sort_Slice L updated_After fetched) in
                if length notifications = 0 then Some (Returned (emit PrintNoUnreadParty w1))
                else
                  (case review_loop L client notifications (length notifications) w1 of
                     None \<Rightarrow> Some Panic
                   | Some w2 \<Rightarrow> Some (Returned (emit PrintDone w2))))))"

section \<open>Notions used to state the properties\<close>

text \<open>
  The order in which \<open>for i := len(xs) - 1; i >= 0; i--\<close> reads the elements \<open>xs[i]\<close>.
\<close>

definition visit_order :: "'a list \<Rightarrow> 'a list" where
  "visit_order xs = map (\<lambda>i. xs ! i) (rev [0..<length xs])"

text \<open>Reviewing the notifications of a list one after the other, first to last.\<close>

fun review_all :: "golib \<Rightarrow> 's Client \<Rightarrow> Notification ptr list \<Rightarrow> 's world \<Rightarrow> 's world option" where
  "review_all L client [] w = Some w"
| "review_all L client (n # ns) w =
     (case review L client n w of None \<Rightarrow> None | Some w' \<Rightarrow> review_all L client ns w')"

text \<open>The two orders of the specification and of the loop's comment.\<close>

definition oldest_first :: "Notification ptr list \<Rightarrow> bool" where
  "oldest_first ns \<longleftrightarrow> sorted_wrt (\<lambda>a b. GetUpdatedAt a \<le> GetUpdatedAt b) ns"

definition newest_first :: "Notification ptr list \<Rightarrow> bool" where
  "newest_first ns \<longleftrightarrow> sorted_wrt (\<lambda>a b. GetUpdatedAt b \<le> GetUpdatedAt a) ns"

text \<open>
  What \<open>sort.Slice\<close> promises for the part that is a parameter here: the result is a
  rearrangement of the slice in which no element is \<open>less\<close> than one before it.
\<close>

definition sort_Slice_contract :: "golib \<Rightarrow> bool" where
  "sort_Slice_contract L \<longleftrightarrow>
     (\<forall>xs. 12 < length xs \<longrightarrow>
        mset (pdqsort_long L updated_After xs) = mset xs
        \<and> sorted_wrt (\<lambda>a b. \<not> updated_After b a) (pdqsort_long L updated_After xs))"

text \<open>
  \<open>served client s page pages s'\<close>: from the remote state \<open>s\<close>, the request for \<open>page\<close>
  and then each request for the \<open>NextPage\<close> of the answer before it are answered, without
  error, by \<open>pages\<close> (each a list of notifications with its \<open>NextPage\<close>), and leave the
  remote side in the state \<open>s'\<close>.
\<close>

fun served :: "'s Client \<Rightarrow> 's \<Rightarrow> int \<Rightarrow> (Notification ptr list \<times> int) list \<Rightarrow> 's \<Rightarrow> bool" where
  "served client s page [] s' \<longleftrightarrow> s' = s"
| "served client s page (p # rest) s' \<longleftrightarrow>
     (case ListRepositoryNotifications client s page of
        (Inl err, s1) \<Rightarrow> False
      | (Inr r, s1) \<Rightarrow> r = p \<and> served client s1 (snd p) rest s')"

text \<open>The thread identifiers of the mark-as-read requests among some events.\<close>

fun mark_calls :: "event list \<Rightarrow> string list" where
  "mark_calls [] = []"
| "mark_calls (CallMarkThreadRead i # es) = i # mark_calls es"
| "mark_calls (e # es) = mark_calls es"

text \<open>
  \<open>marks_answered client s es s'\<close>: read against the remote side, from its state \<open>s\<close> on,
  every mark-as-read request among the events \<open>es\<close> is followed at once by the line that
  belongs to its answer, the log line with the error when the request fails and the
  confirmation when it succeeds, neither line occurs anywhere else, and the requests leave
  the remote side in the state \<open>s'\<close>.
\<close>

fun marks_answered :: "'s Client \<Rightarrow> 's \<Rightarrow> event list \<Rightarrow> 's \<Rightarrow> bool" where
  "marks_answered client s [] s' \<longleftrightarrow> s' = s"
| "marks_answered client s (CallMarkThreadRead i # e # es) s' \<longleftrightarrow>
     (case MarkThreadRead client s i of
        (Some err, s1) \<Rightarrow> e = LogFailedToMark err \<and> marks_answered client s1 es s'
      | (None, s1) \<Rightarrow> e = PrintMarked \<and> marks_answered client s1 es s')"
| "marks_answered client s [CallMarkThreadRead i] s' \<longleftrightarrow> False"
| "marks_answered client s (LogFailedToMark err # es) s' \<longleftrightarrow> False"
| "marks_answered client s (PrintMarked # es) s' \<longleftrightarrow> False"
| "marks_answered client s (e # es) s' \<longleftrightarrow> marks_answered client s es s'"

text \<open>
  The line that follows the separator in the pass for a notification, and the lines that
  follow the separators among some events.
\<close>

definition pass_head :: "Notification ptr \<Rightarrow> event" where
  "pass_head n =
     (if isRenovate n then PrintAutoApproving (GetTitle (GetSubject n))
      else PrintNotification (GetTitle (GetSubject n)) (GetID n))"

fun pass_heads :: "event list \<Rightarrow> event list" where
  "pass_heads [] = []"
| "pass_heads (PrintSeparator # e # es) = e # pass_heads es"
| "pass_heads (e # es) = pass_heads es"

section \<open>Concrete runs\<close>

text \<open>
  Library parameters for runs that never reach them (at most 12 notifications, ASCII
  input), a notification with a given identifier, title and time, and remote sides
  without state: one that serves two pages, one that fails on the second page.
\<close>

definition lib_small :: golib where
  "lib_small = \<lparr>pdqsort_long = insertionSort_func, Map_ToLower = (\<lambda>s. s),
                 TrimFunc_IsSpace = (\<lambda>s. s), TrimRightFunc_IsSpace = (\<lambda>s. s)\<rparr>"

definition notification_of :: "string \<Rightarrow> string \<Rightarrow> int \<Rightarrow> Notification ptr" where
  "notification_of i title t =
     Some \<lparr>ID = Some i, Repository = None,
           Subject = Some \<lparr>Title = Some title, URL = None, Type = None\<rparr>,
           UpdatedAt = Some t\<rparr>"

definition two_pages :: "bool \<Rightarrow> unit Client" where
  "two_pages mark_fails =
     \<lparr>ListRepositoryNotifications =
        (\<lambda>s page.
           if page = 1 then (Inr ([notification_of ''1'' ''Add new feature'' 10], 2), s)
           else if page = 2 then (Inr ([notification_of ''2'' ''Fix typo'' 20], 0), s)
           else (Inl (Error ''no such page''), s)),
      MarkThreadRead =
        (\<lambda>s i. (if mark_fails then Some (Error ''mark failed'') else None, s))\<rparr>"

definition second_page_fails :: "unit Client" where
  "second_page_fails =
     \<lparr>ListRepositoryNotifications =
        (\<lambda>s page.
           if page = 1 then (Inr ([notification_of ''1'' ''Add new feature'' 10], 2), s)
           else (Inl (Error ''server error''), s)),
      MarkThreadRead = (\<lambda>s i. (None, s))\<rparr>"

definition start :: "string \<Rightarrow> unit world" where
  "start input = \<lparr>remote = (), stdin = input, events = []\<rparr>"

section \<open>Properties of the URL translator\<close>

lemma Split_not_Nil: "Split s sep \<noteq> []"
  by (induction s) (auto split: list.splits)

lemma length_Split: "length (Split s sep) = Suc (count_list s sep)"
  by (induction s) (auto split: list.splits simp: Split_not_Nil)

lemma Split_no_sep: "sep \<notin> set a \<Longrightarrow> Split a sep = [a]"
  by (induction a) auto

lemma Split_segment: "sep \<notin> set a \<Longrightarrow> Split (a @ sep # s) sep = a # Split s sep"
  by (induction a) auto

lemma HasPrefix_append: "HasPrefix (p @ s) p"
  by (simp add: HasPrefix_def)

lemma HasPrefix_iff: "HasPrefix s p \<longleftrightarrow> (\<exists>r. s = p @ r)"
  unfolding HasPrefix_def
  by (metis append_eq_conv_conj append_take_drop_id length_append le_add1)

lemma TrimPrefix_append: "TrimPrefix (p @ s) p = s"
  by (simp add: TrimPrefix_def HasPrefix_append)

lemma uiURL_returns: "\<exists>r. uiURL u = Some r"
  unfolding uiURL_def Let_def index_def by auto

lemma uiURL_short:
  "length (Split path CHR ''/'') < 3 \<Longrightarrow>
   uiURL (''https://api.github.com/repos/'' @ path) = Some (''https://api.github.com/repos/'' @ path)"
  unfolding uiURL_def Let_def by (simp only: TrimPrefix_append HasPrefix_append) simp

lemma uiURL_three:
  "Split path CHR ''/'' = [owner, repo, kind] \<Longrightarrow>
   uiURL (''https://api.github.com/repos/'' @ path) = Some (''https://github.com/'' @ owner @ ''/'' @ repo)"
  unfolding uiURL_def Let_def by (simp only: TrimPrefix_append HasPrefix_append) (simp add: index_def)

lemma uiURL_four:
  "Split path CHR ''/'' = owner # repo # kind # ident # others \<Longrightarrow>
   uiURL (''https://api.github.com/repos/'' @ path) =
     Some (if kind = ''pulls'' then ''https://github.com/'' @ owner @ ''/'' @ repo @ ''/pull/'' @ ident
           else if kind = ''issues'' then ''https://github.com/'' @ owner @ ''/'' @ repo @ ''/issues/'' @ ident
           else if kind = ''commits'' then ''https://github.com/'' @ owner @ ''/'' @ repo @ ''/commit/'' @ ident
           else if kind = ''releases'' then ''https://github.com/'' @ owner @ ''/'' @ repo @ ''/releases/'' @ ident
           else ''https://github.com/'' @ owner @ ''/'' @ repo)"
  unfolding uiURL_def Let_def by (simp only: TrimPrefix_append HasPrefix_append) (simp add: index_def)


lemma Split_url_path:
  assumes "CHR ''/'' \<notin> set owner" "CHR ''/'' \<notin> set repo" "CHR ''/'' \<notin> set kind"
    "CHR ''/'' \<notin> set ident" "further = [] \<or> hd further = CHR ''/''"
  shows "\<exists>others. Split (owner @ ''/'' @ repo @ ''/'' @ kind @ ''/'' @ ident @ further) CHR ''/''
           = owner # repo # kind # ident # others"
proof -
  have "\<exists>others. Split (ident @ further) CHR ''/'' = ident # others"
  proof (cases further)
    case Nil
    then show ?thesis using assms(4) by (simp add: Split_no_sep)
  next
    case (Cons c t)
    then have "further = CHR ''/'' # t" using assms(5) by simp
    then show ?thesis using assms(4) by (simp add: Split_segment)
  qed
  then show ?thesis using assms(1-3) by (simp add: Split_segment)
qed

text \<open>
  Claim C2. An API URL \<open><api-root>/repos/<owner>/<repo>/<kind>/<id>\<close>, with or without
  further segments after the id, is translated by its kind: \<open>pulls\<close> to
  \<open>.../pull/<id>\<close>, \<open>issues\<close> to \<open>.../issues/<id>\<close>, \<open>commits\<close> to \<open>.../commit/<id>\<close>,
  \<open>releases\<close> to \<open>.../releases/<id>\<close>, and every other kind to the repository homepage.
\<close>

theorem uiURL_translates:
  assumes "CHR ''/'' \<notin> set owner" "CHR ''/'' \<notin> set repo" "CHR ''/'' \<notin> set kind"
    "CHR ''/'' \<notin> set ident" "further = [] \<or> hd further = CHR ''/''"
  shows "uiURL (''https://api.github.com/repos/'' @ owner @ ''/'' @ repo @ ''/'' @ kind @ ''/'' @ ident @ further) =
     Some (if kind = ''pulls'' then ''https://github.com/'' @ owner @ ''/'' @ repo @ ''/pull/'' @ ident
           else if kind = ''issues'' then ''https://github.com/'' @ owner @ ''/'' @ repo @ ''/issues/'' @ ident
           else if kind = ''commits'' then ''https://github.com/'' @ owner @ ''/'' @ repo @ ''/commit/'' @ ident
           else if kind = ''releases'' then ''https://github.com/'' @ owner @ ''/'' @ repo @ ''/releases/'' @ ident
           else ''https://github.com/'' @ owner @ ''/'' @ repo)"
proof -
  obtain others where
    "Split (owner @ ''/'' @ repo @ ''/'' @ kind @ ''/'' @ ident @ further) CHR ''/'' = owner # repo # kind # ident # others"
    using Split_url_path [OF assms] by blast
  then show ?thesis by (rule uiURL_four)
qed

text \<open>
  The first example of the specification: \<open>.../repos/acme/widgets/pulls/42\<close>.
\<close>

theorem uiURL_translates_witness:
  "CHR ''/'' \<notin> set ''acme'' \<and> CHR ''/'' \<notin> set ''widgets'' \<and> CHR ''/'' \<notin> set ''pulls'' \<and> CHR ''/'' \<notin> set ''42''
   \<and> uiURL ''https://api.github.com/repos/acme/widgets/pulls/42'' = Some ''https://github.com/acme/widgets/pull/42''"
  using uiURL_translates [of "''acme''" "''widgets''" "''pulls''" "''42''" "[]"] by simp

text \<open>
  Claim C3. The translator returns a string on every input (no slice access is out of
  range). An input without the API-root prefix, or with fewer than 3 segments after it,
  comes back unchanged; a recognised kind with no id segment gives the repository
  homepage.
\<close>

theorem uiURL_total:
  "(\<exists>r. uiURL u = Some r)
   \<and> (\<not> HasPrefix u ''https://api.github.com/repos/'' \<longrightarrow> uiURL u = Some u)
   \<and> (HasPrefix u ''https://api.github.com/repos/''
        \<and> length (Split (TrimPrefix u ''https://api.github.com/repos/'') CHR ''/'') < 3 \<longrightarrow> uiURL u = Some u)
   \<and> (CHR ''/'' \<notin> set owner \<and> CHR ''/'' \<notin> set repo
        \<and> kind \<in> {''pulls'', ''issues'', ''commits'', ''releases''} \<longrightarrow>
      uiURL (''https://api.github.com/repos/'' @ owner @ ''/'' @ repo @ ''/'' @ kind)
        = Some (''https://github.com/'' @ owner @ ''/'' @ repo))"
proof (intro conjI impI)
  show "\<exists>r. uiURL u = Some r" by (rule uiURL_returns)
next
  assume "\<not> HasPrefix u ''https://api.github.com/repos/''"
  then show "uiURL u = Some u" by (simp add: uiURL_def)
next
  assume h: "HasPrefix u ''https://api.github.com/repos/''
        \<and> length (Split (TrimPrefix u ''https://api.github.com/repos/'') CHR ''/'') < 3"
  then obtain path where u: "u = ''https://api.github.com/repos/'' @ path"
    using HasPrefix_iff by blast
  with h have "length (Split path CHR ''/'') < 3"
    by (simp only: TrimPrefix_append)
  then show "uiURL u = Some u" unfolding u by (rule uiURL_short)
next
  assume h: "CHR ''/'' \<notin> set owner \<and> CHR ''/'' \<notin> set repo
        \<and> kind \<in> {''pulls'', ''issues'', ''commits'', ''releases''}"
  then have "CHR ''/'' \<notin> set kind" by auto
  with h have "Split (owner @ ''/'' @ repo @ ''/'' @ kind) CHR ''/'' = [owner, repo, kind]"
    by (simp add: Split_segment Split_no_sep)
  then show "uiURL (''https://api.github.com/repos/'' @ owner @ ''/'' @ repo @ ''/'' @ kind)
        = Some (''https://github.com/'' @ owner @ ''/'' @ repo)"
    by (rule uiURL_three)
qed

text \<open>
  The inputs \<open>not-a-github-url\<close>, a URL of two segments, and \<open>.../pulls\<close> with no id.
\<close>

theorem uiURL_total_witness:
  "uiURL ''not-a-github-url'' = Some ''not-a-github-url''
   \<and> uiURL ''https://api.github.com/repos/acme/widgets'' = Some ''https://api.github.com/repos/acme/widgets''
   \<and> uiURL ''https://api.github.com/repos/acme/widgets/pulls'' = Some ''https://github.com/acme/widgets''"
  using uiURL_total [of "''not-a-github-url''" "''acme''" "''widgets''" "''pulls''"]
    uiURL_total [of "''https://api.github.com/repos/acme/widgets''" "''acme''" "''widgets''" "''pulls''"]
  by (simp add: HasPrefix_def TrimPrefix_def)

text \<open>
  Claim C10. With a recognised kind and segments after the id, only the fourth segment
  is used: the result is that of the URL cut after the id, a deep link ending in the id,
  and not the repository homepage.
\<close>

theorem uiURL_extra_segments:
  assumes "CHR ''/'' \<notin> set owner" "CHR ''/'' \<notin> set repo" "CHR ''/'' \<notin> set ident"
    and "kind \<in> {''pulls'', ''issues'', ''commits'', ''releases''}"
  shows "uiURL (''https://api.github.com/repos/'' @ owner @ ''/'' @ repo @ ''/'' @ kind @ ''/'' @ ident @ ''/'' @ later)
       = uiURL (''https://api.github.com/repos/'' @ owner @ ''/'' @ repo @ ''/'' @ kind @ ''/'' @ ident)
     \<and> uiURL (''https://api.github.com/repos/'' @ owner @ ''/'' @ repo @ ''/'' @ kind @ ''/'' @ ident @ ''/'' @ later)
       \<noteq> Some (''https://github.com/'' @ owner @ ''/'' @ repo)
     \<and> (\<exists>link \<in> {''/pull/'', ''/issues/'', ''/commit/'', ''/releases/''}.
          uiURL (''https://api.github.com/repos/'' @ owner @ ''/'' @ repo @ ''/'' @ kind @ ''/'' @ ident @ ''/'' @ later)
            = Some (''https://github.com/'' @ owner @ ''/'' @ repo @ link @ ident))"
proof -
  have k: "CHR ''/'' \<notin> set kind" using assms(4) by auto
  obtain o1 where s1:
    "Split (owner @ ''/'' @ repo @ ''/'' @ kind @ ''/'' @ ident @ ''/'' @ later) CHR ''/'' = owner # repo # kind # ident # o1"
    using Split_url_path [OF assms(1,2) k assms(3), of "''/'' @ later"] by auto
  obtain o2 where s2:
    "Split (owner @ ''/'' @ repo @ ''/'' @ kind @ ''/'' @ ident) CHR ''/'' = owner # repo # kind # ident # o2"
    using Split_url_path [OF assms(1,2) k assms(3), of "[]"] by auto
  note e1 = uiURL_four [OF s1] and e2 = uiURL_four [OF s2]
  show ?thesis
    using assms(4) by (simp only: e1 e2) auto
qed

text \<open>
  \<open>.../pulls/42/comments/7\<close> is translated like \<open>.../pulls/42\<close>.
\<close>

theorem uiURL_extra_segments_witness:
  "CHR ''/'' \<notin> set ''acme'' \<and> CHR ''/'' \<notin> set ''widgets'' \<and> CHR ''/'' \<notin> set ''42''
   \<and> uiURL ''https://api.github.com/repos/acme/widgets/pulls/42'' = Some ''https://github.com/acme/widgets/pull/42''
   \<and> uiURL ''https://api.github.com/repos/acme/widgets/pulls/42/comments/7'' = Some ''https://github.com/acme/widgets/pull/42''"
  using uiURL_extra_segments [of "''acme''" "''widgets''" "''42''" "''pulls''" "''comments/7''"]
  by (simp add: uiURL_def HasPrefix_def TrimPrefix_def index_def)

section \<open>Properties of the classifier\<close>

text \<open>
  Claim C4. The classifier is true exactly when the subject title starts with
  \<open>chore(deps)\<close> or \<open>fix(deps)\<close>; two notifications with the same title are classified
  alike whatever their other fields are; and the four titles of the specification are
  classified as it says, for all values of the other fields.
\<close>

theorem isRenovate_title_prefix:
  "(isRenovate n \<longleftrightarrow>
      (\<exists>rest. GetTitle (GetSubject n) = ''chore(deps)'' @ rest)
      \<or> (\<exists>rest. GetTitle (GetSubject n) = ''fix(deps)'' @ rest))
   \<and> (GetTitle (GetSubject n) = GetTitle (GetSubject m) \<longrightarrow> isRenovate n = isRenovate m)
   \<and> isRenovate (Some \<lparr>ID = i, Repository = r,
        Subject = Some \<lparr>Title = Some ''chore(deps): bump x to y'', URL = u, Type = t\<rparr>, UpdatedAt = d\<rparr>)
   \<and> isRenovate (Some \<lparr>ID = i, Repository = r,
        Subject = Some \<lparr>Title = Some ''fix(deps): patch z'', URL = u, Type = t\<rparr>, UpdatedAt = d\<rparr>)
   \<and> \<not> isRenovate (Some \<lparr>ID = i, Repository = r,
        Subject = Some \<lparr>Title = Some ''feat: add widget'', URL = u, Type = t\<rparr>, UpdatedAt = d\<rparr>)
   \<and> \<not> isRenovate (Some \<lparr>ID = i, Repository = r,
        Subject = Some \<lparr>Title = Some [], URL = u, Type = t\<rparr>, UpdatedAt = d\<rparr>)"
proof (intro conjI)
  show "isRenovate n \<longleftrightarrow>
      (\<exists>rest. GetTitle (GetSubject n) = ''chore(deps)'' @ rest)
      \<or> (\<exists>rest. GetTitle (GetSubject n) = ''fix(deps)'' @ rest)"
    by (simp only: isRenovate_def Let_def HasPrefix_iff) auto
  show "GetTitle (GetSubject n) = GetTitle (GetSubject m) \<longrightarrow> isRenovate n = isRenovate m"
    by (simp add: isRenovate_def)
qed (simp_all add: isRenovate_def GetSubject_def GetTitle_def HasPrefix_def)

text \<open>
  Two notifications that share a title and differ in every other field.
\<close>

theorem isRenovate_title_prefix_witness:
  "GetTitle (GetSubject (Some \<lparr>ID = Some ''1'', Repository = None,
        Subject = Some \<lparr>Title = Some ''fix(deps): patch z'', URL = None, Type = Some ''PullRequest''\<rparr>, UpdatedAt = Some 5\<rparr>))
     = GetTitle (GetSubject (Some \<lparr>ID = Some ''2'', Repository = None,
        Subject = Some \<lparr>Title = Some ''fix(deps): patch z'', URL = None, Type = Some ''Issue''\<rparr>, UpdatedAt = None\<rparr>))
   \<and> isRenovate (Some \<lparr>ID = Some ''1'', Repository = None,
        Subject = Some \<lparr>Title = Some ''fix(deps): patch z'', URL = None, Type = Some ''PullRequest''\<rparr>, UpdatedAt = Some 5\<rparr>)
   \<and> isRenovate (Some \<lparr>ID = Some ''2'', Repository = None,
        Subject = Some \<lparr>Title = Some ''fix(deps): patch z'', URL = None, Type = Some ''Issue''\<rparr>, UpdatedAt = None\<rparr>)"
  using isRenovate_title_prefix [of
      "Some \<lparr>ID = Some ''1'', Repository = None,
        Subject = Some \<lparr>Title = Some ''fix(deps): patch z'', URL = None, Type = Some ''PullRequest''\<rparr>, UpdatedAt = Some 5\<rparr>"
      "Some \<lparr>ID = Some ''2'', Repository = None,
        Subject = Some \<lparr>Title = Some ''fix(deps): patch z'', URL = None, Type = Some ''Issue''\<rparr>, UpdatedAt = None\<rparr>"
      "Some ''1''" None None "Some ''PullRequest''" "Some 5"]
  by (auto simp add: GetSubject_def GetTitle_def)

section \<open>Properties of the sorter and of the processing order\<close>

lemma mset_sift: "mset (sift lessf x rp) = add_mset x (mset rp)"
  by (induction rp) auto

lemma set_sift: "set (sift lessf x rp) = insert x (set rp)"
  by (induction rp) auto

lemma mset_foldl_sift: "mset (foldl (\<lambda>rp x. sift lessf x rp) acc xs) = mset acc + mset xs"
  by (induction xs arbitrary: acc) (auto simp: mset_sift)

lemma mset_insertionSort_func: "mset (insertionSort_func lessf xs) = mset xs"
  by (simp add: insertionSort_func_def mset_foldl_sift)

lemma oldest_first_sift:
  "oldest_first rp \<Longrightarrow> oldest_first (sift updated_After x rp)"
  unfolding oldest_first_def
  by (induction rp) (auto simp: set_sift updated_After_def)

lemma oldest_first_foldl_sift:
  "oldest_first acc \<Longrightarrow> oldest_first (foldl (\<lambda>rp x. sift updated_After x rp) acc xs)"
  by (induction xs arbitrary: acc) (auto simp: oldest_first_sift)

lemma newest_first_rev: "newest_first (rev xs) = oldest_first xs"
  by (simp add: newest_first_def oldest_first_def sorted_wrt_rev)

lemma oldest_first_rev: "oldest_first (rev xs) = newest_first xs"
  by (simp add: newest_first_def oldest_first_def sorted_wrt_rev)

lemma newest_first_insertionSort_func: "newest_first (insertionSort_func updated_After xs)"
  unfolding insertionSort_func_def newest_first_rev
  by (rule oldest_first_foldl_sift) (simp add: oldest_first_def)

lemma not_updated_After: "(\<lambda>a b. \<not> updated_After b a) = (\<lambda>a b. GetUpdatedAt b \<le> GetUpdatedAt a)"
  by (auto simp: updated_After_def fun_eq_iff)

lemma sort_Slice_contract_lib_small: "sort_Slice_contract lib_small"
  using newest_first_insertionSort_func
  by (simp add: sort_Slice_contract_def lib_small_def mset_insertionSort_func
      not_updated_After newest_first_def)

lemma mset_sort_Slice:
  "sort_Slice_contract L \<Longrightarrow> mset (sort_Slice L updated_After xs) = mset xs"
  by (simp add: sort_Slice_def sort_Slice_contract_def mset_insertionSort_func)

lemma newest_first_sort_Slice:
  "sort_Slice_contract L \<Longrightarrow> newest_first (sort_Slice L updated_After xs)"
  using newest_first_insertionSort_func [of xs]
  by (simp add: sort_Slice_def sort_Slice_contract_def not_updated_After newest_first_def)

lemma visit_order_rev: "visit_order xs = rev xs"
  by (simp add: visit_order_def rev_map [symmetric] map_nth)

text \<open>
  The insertion never moves a notification past one of the same time, so the
  notifications of one time keep their order.
\<close>

lemma filter_sift_ties:
  "filter (\<lambda>n. GetUpdatedAt n = t) (sift updated_After x rp)
     = filter (\<lambda>n. GetUpdatedAt n = t) (x # rp)"
  by (induction rp) (auto simp: updated_After_def)

lemma filter_foldl_sift_ties:
  "filter (\<lambda>n. GetUpdatedAt n = t) (foldl (\<lambda>rp x. sift updated_After x rp) acc xs)
     = rev (filter (\<lambda>n. GetUpdatedAt n = t) xs) @ filter (\<lambda>n. GetUpdatedAt n = t) acc"
proof (induction xs arbitrary: acc)
  case Nil
  show ?case by simp
next
  case (Cons x xs)
  show ?case
    by (simp only: foldl_Cons Cons.IH filter_sift_ties) simp
qed

lemma filter_insertionSort_func_ties:
  "filter (\<lambda>n. GetUpdatedAt n = t) (insertionSort_func updated_After xs)
     = filter (\<lambda>n. GetUpdatedAt n = t) xs"
  by (simp add: insertionSort_func_def rev_filter [symmetric] filter_foldl_sift_ties)

section \<open>Properties of the fetcher\<close>

lemma fetch_loop_served:
  assumes "served client (remote w) page pages s'" "pages \<noteq> []"
    "snd (last pages) = 0" "\<forall>p \<in> set (butlast pages). snd p \<noteq> 0"
  shows "fetch_loop client page acc w =
     Some (Inr (acc @ concat (map fst pages)),
           w\<lparr>remote := s', events := events w @ map CallList (page # map snd (butlast pages))\<rparr>)"
  using assms
proof (induction pages arbitrary: page acc w)
  case Nil
  then show ?case by simp
next
  case (Cons p rest)
  obtain ns np where p: "p = (ns, np)" by (cases p)
  from Cons.prems(1) obtain s1 where
    call: "ListRepositoryNotifications client (remote w) page = (Inr (ns, np), s1)"
    and rest: "served client s1 np rest s'"
    by (auto simp: p split: prod.splits sum.splits)
  show ?case
  proof (cases "rest = []")
    case True
    with Cons.prems(3) rest have "np = 0" "s' = s1" by (simp_all add: p)
    with True call show ?thesis
      by (subst fetch_loop.simps) (simp add: p emit_def)
  next
    case False
    with Cons.prems(4) have np: "np \<noteq> 0" by (simp add: p)
    let ?w1 = "emit (CallList page) (w\<lparr>remote := s1\<rparr>)"
    have "fetch_loop client np (acc @ ns) ?w1 =
        Some (Inr ((acc @ ns) @ concat (map fst rest)),
           ?w1\<lparr>remote := s', events := events ?w1 @ map CallList (np # map snd (butlast rest))\<rparr>)"
      using rest False Cons.prems(3,4) by (intro Cons.IH) (simp_all add: emit_def)
    with call np False show ?thesis
      by (subst fetch_loop.simps) (simp add: p emit_def)
  qed
qed

lemma fetch_loop_error:
  assumes "served client (remote w) page pages s1" "\<forall>p \<in> set pages. snd p \<noteq> 0"
    "ListRepositoryNotifications client s1 (last (page # map snd pages)) = (Inl err, s2)"
  shows "fetch_loop client page acc w =
     Some (Inl err, w\<lparr>remote := s2, events := events w @ map CallList (page # map snd pages)\<rparr>)"
  using assms
proof (induction pages arbitrary: page acc w)
  case Nil
  then show ?case by (subst fetch_loop.simps) (simp add: emit_def)
next
  case (Cons p rest)
  obtain ns np where p: "p = (ns, np)" by (cases p)
  from Cons.prems(1) obtain s0 where
    call: "ListRepositoryNotifications client (remote w) page = (Inr (ns, np), s0)"
    and rest: "served client s0 np rest s1"
    by (auto simp: p split: prod.splits sum.splits)
  from Cons.prems(2) have np: "np \<noteq> 0" by (simp add: p)
  let ?w1 = "emit (CallList page) (w\<lparr>remote := s0\<rparr>)"
  have "fetch_loop client np (acc @ ns) ?w1 =
      Some (Inl err, ?w1\<lparr>remote := s2, events := events ?w1 @ map CallList (np # map snd rest)\<rparr>)"
    using rest Cons.prems(2,3) by (intro Cons.IH) (simp_all add: emit_def p)
  with call np show ?case
    by (subst fetch_loop.simps) (simp add: p emit_def)
qed

lemma fetch_loop_returned:
  assumes "fetch_loop client page acc w = Some (Inr res, w')"
  shows "\<exists>pages s'. pages \<noteq> [] \<and> served client (remote w) page pages s'
           \<and> snd (last pages) = 0 \<and> (\<forall>p \<in> set (butlast pages). snd p \<noteq> 0)
           \<and> res = acc @ concat (map fst pages)
           \<and> w' = w\<lparr>remote := s', events := events w @ map CallList (page # map snd (butlast pages))\<rparr>"
proof -
  have "fetch_loop client page acc w = Some y \<Longrightarrow> \<forall>res w'. y = (Inr res, w') \<longrightarrow>
          (\<exists>pages s'. pages \<noteq> [] \<and> served client (remote w) page pages s'
           \<and> snd (last pages) = 0 \<and> (\<forall>p \<in> set (butlast pages). snd p \<noteq> 0)
           \<and> res = acc @ concat (map fst pages)
           \<and> w' = w\<lparr>remote := s', events := events w @ map CallList (page # map snd (butlast pages))\<rparr>)" for y
  proof (induction client page acc w y rule: fetch_loop.raw_induct [rotated, consumes 1])
    case (1 f client page acc w y)
    note IH = 1(1) and unfolded = 1(2)
    show ?case
    proof (intro allI impI)
      fix res w'
      assume y: "y = (Inr res, w')"
      obtain r s1 where call: "ListRepositoryNotifications client (remote w) page = (r, s1)"
        by (cases "ListRepositoryNotifications client (remote w) page")
      let ?w1 = "emit (CallList page) (w\<lparr>remote := s1\<rparr>)"
      from unfolded call y obtain ns np where r: "r = Inr (ns, np)"
        by (cases r) (auto simp: Let_def)
      show "\<exists>pages s'. pages \<noteq> [] \<and> served client (remote w) page pages s'
           \<and> snd (last pages) = 0 \<and> (\<forall>p \<in> set (butlast pages). snd p \<noteq> 0)
           \<and> res = acc @ concat (map fst pages)
           \<and> w' = w\<lparr>remote := s', events := events w @ map CallList (page # map snd (butlast pages))\<rparr>"
      proof (cases "np = 0")
        case True
        with unfolded call y r have "res = acc @ ns" "w' = ?w1"
          by (simp_all add: Let_def)
        then show ?thesis
          using call r True
          by (intro exI [of _ "[(ns, 0)]"] exI [of _ s1]) (simp add: emit_def)
      next
        case False
        with unfolded call y r have "f client np (acc @ ns) ?w1 = Some (Inr res, w')"
          by (simp add: Let_def)
        from IH [OF this] obtain pages s' where
          ih: "pages \<noteq> []" "served client (remote ?w1) np pages s'" "snd (last pages) = 0"
            "\<forall>p \<in> set (butlast pages). snd p \<noteq> 0" "res = (acc @ ns) @ concat (map fst pages)"
            "w' = ?w1\<lparr>remote := s', events := events ?w1 @ map CallList (np # map snd (butlast pages))\<rparr>"
          by blast
        show ?thesis
          using call r False ih
          by (intro exI [of _ "(ns, np) # pages"] exI [of _ s']) (simp add: emit_def)
      qed
    qed
  qed
  with assms show ?thesis by blast
qed

lemma mark_calls_append: "mark_calls (xs @ ys) = mark_calls xs @ mark_calls ys"
  by (induction xs rule: mark_calls.induct) simp_all

lemma mark_calls_CallList: "mark_calls (map CallList ps) = []"
  by (induction ps) simp_all

lemma mark_calls_CallList_comp: "mark_calls (map (CallList \<circ> f) ps) = []"
  by (induction ps) simp_all

text \<open>
  Claim C7. The fetch returns a list exactly when the requests, starting at page 1 and
  each asking for the \<open>NextPage\<close> of the answer before, are answered without error by pages
  of which the last, and no earlier one, has \<open>NextPage = 0\<close>. The list is then the
  concatenation of these pages in the order of the requests, its length is the sum of
  their lengths, and one request was made per page.
\<close>

theorem fetchAllUnread_pages:
  "fetchAllUnread client w = Some (Inr all, w') \<longleftrightarrow>
     (\<exists>pages s'. pages \<noteq> [] \<and> served client (remote w) 1 pages s'
        \<and> snd (last pages) = 0 \<and> (\<forall>p \<in> set (butlast pages). snd p \<noteq> 0)
        \<and> all = concat (map fst pages)
        \<and> length all = sum_list (map (\<lambda>p. length (fst p)) pages)
        \<and> w' = w\<lparr>remote := s', events := events w @ map CallList (1 # map snd (butlast pages))\<rparr>)"
proof
  assume "fetchAllUnread client w = Some (Inr all, w')"
  then have "fetch_loop client 1 [] w = Some (Inr all, w')"
    by (simp add: fetchAllUnread_def)
  from fetch_loop_returned [OF this] obtain pages s' where
    h: "pages \<noteq> []" "served client (remote w) 1 pages s'" "snd (last pages) = 0"
      "\<forall>p \<in> set (butlast pages). snd p \<noteq> 0" "all = [] @ concat (map fst pages)"
      "w' = w\<lparr>remote := s', events := events w @ map CallList (1 # map snd (butlast pages))\<rparr>"
    by blast
  from h(5) have "length all = sum_list (map (\<lambda>p. length (fst p)) pages)"
    by (simp add: length_concat comp_def)
  with h show "\<exists>pages s'. pages \<noteq> [] \<and> served client (remote w) 1 pages s'
        \<and> snd (last pages) = 0 \<and> (\<forall>p \<in> set (butlast pages). snd p \<noteq> 0)
        \<and> all = concat (map fst pages)
        \<and> length all = sum_list (map (\<lambda>p. length (fst p)) pages)
        \<and> w' = w\<lparr>remote := s', events := events w @ map CallList (1 # map snd (butlast pages))\<rparr>"
    by (intro exI [of _ pages] exI [of _ s']) simp
next
  assume "\<exists>pages s'. pages \<noteq> [] \<and> served client (remote w) 1 pages s'
        \<and> snd (last pages) = 0 \<and> (\<forall>p \<in> set (butlast pages). snd p \<noteq> 0)
        \<and> all = concat (map fst pages)
        \<and> length all = sum_list (map (\<lambda>p. length (fst p)) pages)
        \<and> w' = w\<lparr>remote := s', events := events w @ map CallList (1 # map snd (butlast pages))\<rparr>"
  then obtain pages s' where
    h: "pages \<noteq> []" "served client (remote w) 1 pages s'" "snd (last pages) = 0"
      "\<forall>p \<in> set (butlast pages). snd p \<noteq> 0" "all = concat (map fst pages)"
      "w' = w\<lparr>remote := s', events := events w @ map CallList (1 # map snd (butlast pages))\<rparr>"
    by blast
  from fetch_loop_served [OF h(2) h(1) h(3) h(4), of "[]"] h(5,6)
  show "fetchAllUnread client w = Some (Inr all, w')"
    by (simp add: fetchAllUnread_def)
qed

text \<open>
  Two pages of one notification each; the second one carries \<open>NextPage = 0\<close>.
\<close>

theorem fetchAllUnread_pages_witness:
  "served (two_pages False) (remote (start [])) 1
       [([notification_of ''1'' ''Add new feature'' 10], 2), ([notification_of ''2'' ''Fix typo'' 20], 0)] ()
   \<and> fetchAllUnread (two_pages False) (start []) =
       Some (Inr [notification_of ''1'' ''Add new feature'' 10, notification_of ''2'' ''Fix typo'' 20],
             \<lparr>remote = (), stdin = [], events = [CallList 1, CallList 2]\<rparr>)"
proof
  show s: "served (two_pages False) (remote (start [])) 1
       [([notification_of ''1'' ''Add new feature'' 10], 2), ([notification_of ''2'' ''Fix typo'' 20], 0)] ()"
    by (simp add: two_pages_def start_def)
  show "fetchAllUnread (two_pages False) (start []) =
       Some (Inr [notification_of ''1'' ''Add new feature'' 10, notification_of ''2'' ''Fix typo'' 20],
             \<lparr>remote = (), stdin = [], events = [CallList 1, CallList 2]\<rparr>)"
    apply (rule iffD2 [OF fetchAllUnread_pages])
    apply (rule exI [of _ "[([notification_of ''1'' ''Add new feature'' 10], 2), ([notification_of ''2'' ''Fix typo'' 20], 0)]"])
    apply (rule exI [of _ "()"])
    using s apply (simp add: start_def)
    done
qed

text \<open>
  Claim C6. When a list request fails, after any number of pages that were served and
  asked for more, the fetch returns the error and no list, and \<open>main\<close> ends in
  \<open>log.Fatalf\<close>: nothing was reviewed or marked as read and no input was read.
\<close>

theorem fetch_error_is_fatal:
  assumes "served client (remote w) 1 pages s1" "\<forall>p \<in> set pages. snd p \<noteq> 0"
    and "ListRepositoryNotifications client s1 (last (1 # map snd pages)) = (Inl err, s2)"
    and "token \<noteq> []"
    and "w' = w\<lparr>remote := s2, events := events w @ map CallList (1 # map snd pages)\<rparr>"
  shows "fetchAllUnread client w = Some (Inl err, w')
     \<and> main L client token w = Some (Fatal (ErrorFetching err) w')
     \<and> mark_calls (events w') = mark_calls (events w)
     \<and> PrintSeparator \<notin> set (drop (length (events w)) (events w'))
     \<and> stdin w' = stdin w"
proof -
  have f: "fetchAllUnread client w = Some (Inl err, w')"
    unfolding fetchAllUnread_def assms(5)
    by (rule fetch_loop_error [OF assms(1-3)])
  then have "main L client token w = Some (Fatal (ErrorFetching err) w')"
    using assms(4) by (simp add: main_def)
  moreover have "mark_calls (events w') = mark_calls (events w)"
    unfolding assms(5) by (simp add: mark_calls_append mark_calls_CallList_comp)
  moreover have "PrintSeparator \<notin> set (drop (length (events w)) (events w'))"
    unfolding assms(5) by auto
  moreover have "stdin w' = stdin w"
    unfolding assms(5) by simp
  ultimately show ?thesis using f by blast
qed

text \<open>
  The first page is served and the request for the second page fails.
\<close>

theorem fetch_error_is_fatal_witness:
  "served second_page_fails (remote (start ''y'')) 1 [([notification_of ''1'' ''Add new feature'' 10], 2)] ()
   \<and> ListRepositoryNotifications second_page_fails () 2 = (Inl (Error ''server error''), ())
   \<and> fetchAllUnread second_page_fails (start ''y'') =
       Some (Inl (Error ''server error''), \<lparr>remote = (), stdin = ''y'', events = [CallList 1, CallList 2]\<rparr>)
   \<and> main lib_small second_page_fails ''token'' (start ''y'') =
       Some (Fatal (ErrorFetching (Error ''server error''))
               \<lparr>remote = (), stdin = ''y'', events = [CallList 1, CallList 2]\<rparr>)"
  using fetch_error_is_fatal [of second_page_fails "start ''y''"
      "[([notification_of ''1'' ''Add new feature'' 10], 2)]" "()" "Error ''server error''" "()" "''token''"
      "\<lparr>remote = (), stdin = ''y'', events = [CallList 1, CallList 2]\<rparr>" lib_small]
  by (simp add: second_page_fails_def start_def)

section \<open>Properties of the reviewer\<close>

lemma markAsRead_events:
  "\<exists>e. events (markAsRead client n w) = events w @ [CallMarkThreadRead (GetID n), e]
       \<and> e \<in> {PrintMarked} \<union> range LogFailedToMark
       \<and> stdin (markAsRead client n w) = stdin w"
  by (auto simp: markAsRead_def emit_def Let_def split: prod.splits option.splits)

lemma review_auto:
  "isRenovate n \<Longrightarrow>
   review L client n w =
     Some (markAsRead client n (emit (PrintAutoApproving (GetTitle (GetSubject n))) (emit PrintSeparator w)))"
  by (simp add: review_def Let_def)

lemma review_manual:
  assumes "\<not> isRenovate n" "uiURL (GetURL (GetSubject n)) = Some url"
    "ReadString (stdin w) CHR 0x0A = (line, rest)"
  shows "review L client n w =
     (let w8 = w\<lparr>events := events w @
                   [PrintSeparator, PrintNotification (GetTitle (GetSubject n)) (GetID n),
                    PrintRepo (GetFullName (GetRepository n)), PrintType (GetType (GetSubject n)),
                    PrintURL url, PrintUpdated (GetUpdatedAt n), PrintPrompt],
                 stdin := rest\<rparr>;
          text = TrimSpace L (ToLower L line)
      in if text = ''y'' \<or> text = ''yes'' then Some (markAsRead client n w8)
         else Some (emit PrintSkipped w8))"
  using assms by (simp add: review_def Let_def emit_def)


lemma review_effect:
  "\<exists>w' new. review L client n w = Some w'
      \<and> events w' = events w @ PrintSeparator # new
      \<and> PrintSeparator \<notin> set new
      \<and> (mark_calls new = [] \<or> mark_calls new = [GetID n])"
proof (cases "isRenovate n")
  case True
  obtain e where e: "events (markAsRead client n (emit (PrintAutoApproving (GetTitle (GetSubject n))) (emit PrintSeparator w)))
      = events (emit (PrintAutoApproving (GetTitle (GetSubject n))) (emit PrintSeparator w)) @ [CallMarkThreadRead (GetID n), e]"
    "e \<in> {PrintMarked} \<union> range LogFailedToMark"
    using markAsRead_events by blast
  show ?thesis
    unfolding review_auto [OF True]
    using e
    by (intro exI [of _ "markAsRead client n (emit (PrintAutoApproving (GetTitle (GetSubject n))) (emit PrintSeparator w))"]
        exI [of _ "[PrintAutoApproving (GetTitle (GetSubject n)), CallMarkThreadRead (GetID n), e]"])
      (auto simp: emit_def)
next
  case False
  obtain url where url: "uiURL (GetURL (GetSubject n)) = Some url"
    using uiURL_returns by blast
  obtain line rest where rd: "ReadString (stdin w) CHR 0x0A = (line, rest)"
    by (cases "ReadString (stdin w) CHR 0x0A")
  let ?shown = "[PrintNotification (GetTitle (GetSubject n)) (GetID n),
                    PrintRepo (GetFullName (GetRepository n)), PrintType (GetType (GetSubject n)),
                    PrintURL url, PrintUpdated (GetUpdatedAt n), PrintPrompt]"
  let ?w8 = "w\<lparr>events := events w @ PrintSeparator # ?shown, stdin := rest\<rparr>"
  show ?thesis
  proof (cases "TrimSpace L (ToLower L line) = ''y'' \<or> TrimSpace L (ToLower L line) = ''yes''")
    case True
    obtain e where e: "events (markAsRead client n ?w8) = events ?w8 @ [CallMarkThreadRead (GetID n), e]"
      "e \<in> {PrintMarked} \<union> range LogFailedToMark"
      using markAsRead_events by blast
    have "review L client n w = Some (markAsRead client n ?w8)"
      using True by (simp add: review_manual [OF False url rd])
    then show ?thesis
      using e
      by (intro exI [of _ "markAsRead client n ?w8"]
          exI [of _ "?shown @ [CallMarkThreadRead (GetID n), e]"]) (auto simp: mark_calls_append)
  next
    case no: False
    have "review L client n w = Some (emit PrintSkipped ?w8)"
      using no by (simp add: review_manual [OF False url rd])
    then show ?thesis
      by (intro exI [of _ "emit PrintSkipped ?w8"] exI [of _ "?shown @ [PrintSkipped]"])
        (auto simp: emit_def)
  qed
qed

lemma review_all_effect:
  "\<exists>w' new. review_all L client ns w = Some w'
      \<and> events w' = events w @ new
      \<and> count_list new PrintSeparator = length ns
      \<and> subseq (mark_calls new) (map GetID ns)"
proof (induction ns arbitrary: w)
  case Nil
  show ?case by (intro exI [of _ w] exI [of _ "[]"]) simp
next
  case (Cons n ns)
  obtain w1 new1 where r: "review L client n w = Some w1" "events w1 = events w @ PrintSeparator # new1"
    "PrintSeparator \<notin> set new1" "mark_calls new1 = [] \<or> mark_calls new1 = [GetID n]"
    using review_effect by blast
  obtain w2 new2 where a: "review_all L client ns w1 = Some w2" "events w2 = events w1 @ new2"
    "count_list new2 PrintSeparator = length ns" "subseq (mark_calls new2) (map GetID ns)"
    using Cons.IH by blast
  have "subseq (mark_calls new1 @ mark_calls new2) ([GetID n] @ map GetID ns)"
    using r(4) a(4) by (intro list_emb_append_mono) auto
  then show ?case
    using r a
    by (intro exI [of _ w2] exI [of _ "PrintSeparator # new1 @ new2"])
      (simp add: mark_calls_append count_list_0_iff)
qed

lemma review_loop_take:
  "k \<le> length ns \<Longrightarrow> review_loop L client ns k w = review_all L client (rev (take k ns)) w"
proof (induction k arbitrary: w)
  case 0
  show ?case by simp
next
  case (Suc k)
  then have k: "k < length ns" by simp
  have "review_all L client (ns ! k # rev (take k ns)) w =
      (case review L client (ns ! k) w of None \<Rightarrow> None | Some w' \<Rightarrow> review_loop L client ns k w')"
    using Suc.IH k by (simp split: option.splits)
  then show ?case
    using k by (simp add: take_Suc_conv_app_nth index_def split: option.splits)
qed

lemma review_loop_visit_order:
  "review_loop L client ns (length ns) w = review_all L client (visit_order ns) w"
  by (simp add: review_loop_take visit_order_rev)

lemma normalise_examples:
  "TrimSpace L (ToLower L ''Y'') = ''y''"
  "TrimSpace L (ToLower L '' yes '') = ''yes''"
  "TrimSpace L (ToLower L ''YES'') = ''yes''"
  "TrimSpace L (ToLower L (''Y'' @ [CHR 0x0A])) = ''y''"
  "TrimSpace L (ToLower L []) = []"
  "TrimSpace L (ToLower L ''n'') = ''n''"
  "TrimSpace L (ToLower L ''maybe'') = ''maybe''"
  by code_simp+

text \<open>
  Claim C8. For a notification that is not auto-approved, the review reads one line
  (up to and including the first newline) and compares its lower-cased, trimmed text
  with \<open>y\<close> and \<open>yes\<close>: on a match there is one mark-as-read request, for this
  notification; otherwise there is none, the remote side is left as it was and the last
  line printed is the skip message. \<open>Y\<close>, \<open> yes \<close> and \<open>YES\<close> match; the empty input,
  \<open>n\<close> and \<open>maybe\<close> do not.
\<close>

theorem review_confirmation:
  assumes "\<not> isRenovate n"
    and "ReadString (stdin w) CHR 0x0A = (line, rest)"
    and "text = TrimSpace L (ToLower L line)"
  shows "(\<exists>w'. review L client n w = Some w' \<and> stdin w' = rest
            \<and> mark_calls (events w') =
                mark_calls (events w) @ (if text = ''y'' \<or> text = ''yes'' then [GetID n] else [])
            \<and> (text \<noteq> ''y'' \<and> text \<noteq> ''yes'' \<longrightarrow>
                  remote w' = remote w \<and> last (events w') = PrintSkipped))
     \<and> TrimSpace L (ToLower L ''Y'') = ''y''
     \<and> TrimSpace L (ToLower L '' yes '') = ''yes''
     \<and> TrimSpace L (ToLower L ''YES'') = ''yes''
     \<and> TrimSpace L (ToLower L []) \<notin> {''y'', ''yes''}
     \<and> TrimSpace L (ToLower L ''n'') \<notin> {''y'', ''yes''}
     \<and> TrimSpace L (ToLower L ''maybe'') \<notin> {''y'', ''yes''}"
proof -
  obtain url where url: "uiURL (GetURL (GetSubject n)) = Some url"
    using uiURL_returns by blast
  let ?w8 = "w\<lparr>events := events w @
                   [PrintSeparator, PrintNotification (GetTitle (GetSubject n)) (GetID n),
                    PrintRepo (GetFullName (GetRepository n)), PrintType (GetType (GetSubject n)),
                    PrintURL url, PrintUpdated (GetUpdatedAt n), PrintPrompt],
                 stdin := rest\<rparr>"
  note r = review_manual [OF assms(1) url assms(2), of L client]
  have "\<exists>w'. review L client n w = Some w' \<and> stdin w' = rest
            \<and> mark_calls (events w') =
                mark_calls (events w) @ (if text = ''y'' \<or> text = ''yes'' then [GetID n] else [])
            \<and> (text \<noteq> ''y'' \<and> text \<noteq> ''yes'' \<longrightarrow>
                  remote w' = remote w \<and> last (events w') = PrintSkipped)"
  proof (cases "text = ''y'' \<or> text = ''yes''")
    case True
    obtain e where e: "events (markAsRead client n ?w8) = events ?w8 @ [CallMarkThreadRead (GetID n), e]"
      "e \<in> {PrintMarked} \<union> range LogFailedToMark" "stdin (markAsRead client n ?w8) = stdin ?w8"
      using markAsRead_events by blast
    have "review L client n w = Some (markAsRead client n ?w8)"
      using True assms(3) by (simp add: r)
    then show ?thesis
      using e True
      by (intro exI [of _ "markAsRead client n ?w8"]) (auto simp: mark_calls_append)
  next
    case False
    have "review L client n w = Some (emit PrintSkipped ?w8)"
      using False assms(3) by (simp add: r)
    then show ?thesis
      using False
      by (intro exI [of _ "emit PrintSkipped ?w8"]) (auto simp: mark_calls_append emit_def)
  qed
  then show ?thesis by (simp add: normalise_examples)
qed

text \<open>
  The input \<open> YES \<close> with its newline confirms; what follows the newline stays unread.
\<close>

theorem review_confirmation_witness:
  "\<not> isRenovate (notification_of ''1'' ''Add new feature'' 10)
   \<and> ReadString (stdin (start ('' YES '' @ [CHR 0x0A] @ ''n''))) CHR 0x0A = ('' YES '' @ [CHR 0x0A], ''n'')
   \<and> ''yes'' = TrimSpace lib_small (ToLower lib_small ('' YES '' @ [CHR 0x0A]))
   \<and> (\<exists>w'. review lib_small (two_pages False) (notification_of ''1'' ''Add new feature'' 10)
               (start ('' YES '' @ [CHR 0x0A] @ ''n'')) = Some w'
            \<and> stdin w' = ''n'' \<and> mark_calls (events w') = [''1''])"
proof -
  have a: "\<not> isRenovate (notification_of ''1'' ''Add new feature'' 10)"
    by code_simp
  have b: "ReadString (stdin (start ('' YES '' @ [CHR 0x0A] @ ''n''))) CHR 0x0A = ('' YES '' @ [CHR 0x0A], ''n'')"
    by code_simp
  have c: "''yes'' = TrimSpace lib_small (ToLower lib_small ('' YES '' @ [CHR 0x0A]))"
    by code_simp
  have d: "GetID (notification_of ''1'' ''Add new feature'' 10) = ''1''"
    by code_simp
  from review_confirmation [OF a b c, of "two_pages False"] obtain w' where
    w: "review lib_small (two_pages False) (notification_of ''1'' ''Add new feature'' 10)
               (start ('' YES '' @ [CHR 0x0A] @ ''n'')) = Some w'" "stdin w' = ''n''"
      "mark_calls (events w') = mark_calls (events (start ('' YES '' @ [CHR 0x0A] @ ''n''))) @
          (if ''yes'' = ''y'' \<or> ''yes'' = ''yes''
           then [GetID (notification_of ''1'' ''Add new feature'' 10)] else [])"
    by blast
  from w(3) have "mark_calls (events w') = [''1'']"
    by (simp add: d start_def)
  with w(1,2) a b c show ?thesis by blast
qed

lemma marks_answered_append:
  "marks_answered client s xs s1 \<Longrightarrow> marks_answered client s1 ys s' \<Longrightarrow>
   marks_answered client s (xs @ ys) s'"
  by (induction client s xs s1 rule: marks_answered.induct)
    (auto split: prod.splits option.splits)

lemma pass_heads_other: "e \<noteq> PrintSeparator \<Longrightarrow> pass_heads (e # es) = pass_heads es"
  by (cases e) simp_all

lemma pass_heads_no_separator:
  "PrintSeparator \<notin> set xs \<Longrightarrow> pass_heads (xs @ ys) = pass_heads ys"
  by (induction xs) (auto simp: pass_heads_other)

lemma pass_heads_pass:
  "PrintSeparator \<notin> set rest \<Longrightarrow>
   pass_heads ((PrintSeparator # h # rest) @ ys) = h # pass_heads ys"
  by (simp add: pass_heads_no_separator)

lemma markAsRead_answered:
  "\<exists>e. events (markAsRead client n w) = events w @ [CallMarkThreadRead (GetID n), e]
       \<and> e \<noteq> PrintSeparator
       \<and> marks_answered client (remote w) [CallMarkThreadRead (GetID n), e] (remote (markAsRead client n w))"
  by (auto simp: markAsRead_def emit_def Let_def split: prod.splits option.splits)

lemma review_pass:
  "\<exists>w' rest. review L client n w = Some w'
      \<and> events w' = events w @ PrintSeparator # pass_head n # rest
      \<and> PrintSeparator \<notin> set rest
      \<and> marks_answered client (remote w) (PrintSeparator # pass_head n # rest) (remote w')"
proof (cases "isRenovate n")
  case True
  let ?w2 = "emit (PrintAutoApproving (GetTitle (GetSubject n))) (emit PrintSeparator w)"
  obtain e where e: "events (markAsRead client n ?w2) = events ?w2 @ [CallMarkThreadRead (GetID n), e]"
    "e \<noteq> PrintSeparator"
    "marks_answered client (remote ?w2) [CallMarkThreadRead (GetID n), e] (remote (markAsRead client n ?w2))"
    using markAsRead_answered by blast
  show ?thesis
    unfolding review_auto [OF True]
    using e True
    by (intro exI [of _ "markAsRead client n ?w2"] exI [of _ "[CallMarkThreadRead (GetID n), e]"])
      (simp add: emit_def pass_head_def)
next
  case False
  obtain url where url: "uiURL (GetURL (GetSubject n)) = Some url"
    using uiURL_returns by blast
  obtain line rest where rd: "ReadString (stdin w) CHR 0x0A = (line, rest)"
    by (cases "ReadString (stdin w) CHR 0x0A")
  let ?shown = "[PrintRepo (GetFullName (GetRepository n)), PrintType (GetType (GetSubject n)),
                    PrintURL url, PrintUpdated (GetUpdatedAt n), PrintPrompt]"
  let ?w8 = "w\<lparr>events := events w @ PrintSeparator # pass_head n # ?shown, stdin := rest\<rparr>"
  note r = review_manual [OF False url rd, of L client]
  show ?thesis
  proof (cases "TrimSpace L (ToLower L line) = ''y'' \<or> TrimSpace L (ToLower L line) = ''yes''")
    case True
    obtain e where e: "events (markAsRead client n ?w8) = events ?w8 @ [CallMarkThreadRead (GetID n), e]"
      "e \<noteq> PrintSeparator"
      "marks_answered client (remote ?w8) [CallMarkThreadRead (GetID n), e] (remote (markAsRead client n ?w8))"
      using markAsRead_answered by blast
    have "review L client n w = Some (markAsRead client n ?w8)"
      using True False by (simp add: r pass_head_def)
    then show ?thesis
      using e False
      by (intro exI [of _ "markAsRead client n ?w8"]
          exI [of _ "?shown @ [CallMarkThreadRead (GetID n), e]"]) (simp add: pass_head_def)
  next
    case no: False
    have "review L client n w = Some (emit PrintSkipped ?w8)"
      using no False by (simp add: r pass_head_def)
    then show ?thesis
      using False
      by (intro exI [of _ "emit PrintSkipped ?w8"] exI [of _ "?shown @ [PrintSkipped]"])
        (simp add: emit_def pass_head_def)
  qed
qed

lemma review_all_pass:
  "\<exists>w' new. review_all L client ns w = Some w'
      \<and> events w' = events w @ new
      \<and> pass_heads new = map pass_head ns
      \<and> marks_answered client (remote w) new (remote w')"
proof (induction ns arbitrary: w)
  case Nil
  show ?case by (intro exI [of _ w] exI [of _ "[]"]) simp
next
  case (Cons n ns)
  obtain w1 rest where r: "review L client n w = Some w1"
    "events w1 = events w @ PrintSeparator # pass_head n # rest"
    "PrintSeparator \<notin> set rest"
    "marks_answered client (remote w) (PrintSeparator # pass_head n # rest) (remote w1)"
    using review_pass by blast
  obtain w2 new2 where a: "review_all L client ns w1 = Some w2" "events w2 = events w1 @ new2"
    "pass_heads new2 = map pass_head ns" "marks_answered client (remote w1) new2 (remote w2)"
    using Cons.IH by blast
  have h: "pass_heads ((PrintSeparator # pass_head n # rest) @ new2) = pass_head n # map pass_head ns"
    using r(3) a(3) by (simp add: pass_heads_no_separator)
  have m: "marks_answered client (remote w) ((PrintSeparator # pass_head n # rest) @ new2) (remote w2)"
    using r(4) a(4) by (rule marks_answered_append)
  show ?case
    using r(1,2) a(1,2) h m
    by (intro exI [of _ w2] exI [of _ "(PrintSeparator # pass_head n # rest) @ new2"]) simp
qed

section \<open>Properties of the whole run\<close>

lemma length_sorted_fetched:
  assumes "sort_Slice_contract L"
  shows "length (slices_Reverse (sort_Slice L updated_After fetched)) = length fetched"
proof -
  have "mset (slices_Reverse (sort_Slice L updated_After fetched)) = mset fetched"
    using assms by (simp add: slices_Reverse_def mset_sort_Slice)
  then show ?thesis by (rule mset_eq_length)
qed

lemma main_reviews:
  assumes "sort_Slice_contract L" "token \<noteq> []"
    "fetchAllUnread client w = Some (Inr fetched, w1)" "fetched \<noteq> []"
  shows "main L client token w =
     (case review_all L client (visit_order (slices_Reverse (sort_Slice L updated_After fetched))) w1 of
        None \<Rightarrow> Some Panic
      | Some w2 \<Rightarrow> Some (Returned (emit PrintDone w2)))"
proof -
  have "slices_Reverse (sort_Slice L updated_After fetched) \<noteq> []"
    using length_sorted_fetched [OF assms(1), of fetched] assms(4) by (metis length_0_conv)
  then show ?thesis
    using assms(2-4) by (simp add: main_def Let_def review_loop_visit_order)
qed

text \<open>
  Claim C9. Whatever the mark-as-read requests answer, a run whose fetch returned a
  list that is not empty returns from \<open>main\<close> with the completion message as its last
  line. Between the fetch and that line the run makes one pass per fetched notification,
  in the order of the loop, each with its separator line and the line that names the
  notification; it makes at most one mark-as-read request per notification, in that
  order; and every request is followed at once by the log line with its error when it
  fails (by the confirmation when it succeeds), after which the run goes on. Taken by
  itself, a request that fails adds the request and the log line of the failure and
  nothing else.
\<close>

theorem mark_failure_not_fatal:
  assumes "sort_Slice_contract L" "token \<noteq> []"
    and "fetchAllUnread client w = Some (Inr fetched, w1)" "fetched \<noteq> []"
  shows "(\<exists>w' new. main L client token w = Some (Returned w')
            \<and> events w' = events w1 @ new @ [PrintDone]
            \<and> count_list new PrintSeparator = length fetched
            \<and> subseq (mark_calls new)
                 (map GetID (visit_order (slices_Reverse (sort_Slice L updated_After fetched))))
            \<and> pass_heads new
                 = map pass_head (visit_order (slices_Reverse (sort_Slice L updated_After fetched)))
            \<and> marks_answered client (remote w1) new (remote w'))
     \<and> (MarkThreadRead client (remote v) (GetID n) = (Some err, s') \<longrightarrow>
          markAsRead client n v =
            v\<lparr>remote := s', events := events v @ [CallMarkThreadRead (GetID n), LogFailedToMark err]\<rparr>)"
proof
  let ?order = "visit_order (slices_Reverse (sort_Slice L updated_After fetched))"
  obtain w2 new where r: "review_all L client ?order w1 = Some w2" "events w2 = events w1 @ new"
    "count_list new PrintSeparator = length ?order" "subseq (mark_calls new) (map GetID ?order)"
    using review_all_effect by blast
  obtain w3 new3 where p: "review_all L client ?order w1 = Some w3" "events w3 = events w1 @ new3"
    "pass_heads new3 = map pass_head ?order" "marks_answered client (remote w1) new3 (remote w3)"
    using review_all_pass by blast
  from r(1,2) p(1,2) have same: "w3 = w2" "new3 = new" by simp_all
  have "length ?order = length fetched"
    using length_sorted_fetched [OF assms(1)] by (simp add: visit_order_rev)
  with r p(3,4) same show "\<exists>w' new. main L client token w = Some (Returned w')
            \<and> events w' = events w1 @ new @ [PrintDone]
            \<and> count_list new PrintSeparator = length fetched
            \<and> subseq (mark_calls new) (map GetID ?order)
            \<and> pass_heads new = map pass_head ?order
            \<and> marks_answered client (remote w1) new (remote w')"
    by (intro exI [of _ "emit PrintDone w2"] exI [of _ new])
      (simp add: main_reviews [OF assms] emit_def)
next
  show "MarkThreadRead client (remote v) (GetID n) = (Some err, s') \<longrightarrow>
          markAsRead client n v =
            v\<lparr>remote := s', events := events v @ [CallMarkThreadRead (GetID n), LogFailedToMark err]\<rparr>"
    by (simp add: markAsRead_def emit_def)
qed

lemma two_pages_fetch:
  "fetchAllUnread (two_pages b) (start input) =
       Some (Inr [notification_of ''1'' ''Add new feature'' 10, notification_of ''2'' ''Fix typo'' 20],
             \<lparr>remote = (), stdin = input, events = [CallList 1, CallList 2]\<rparr>)"
  unfolding fetchAllUnread_def
  by (subst fetch_loop.simps, simp add: two_pages_def start_def emit_def)+

text \<open>
  A remote side on which every mark-as-read request fails, and the input \<open>y\<close>: the
  request for the first notification reviewed fails and is logged, the second
  notification is reviewed all the same, and the run ends with the completion message.
\<close>

theorem mark_failure_not_fatal_witness:
  "sort_Slice_contract lib_small
   \<and> fetchAllUnread (two_pages True) (start ''y'') =
       Some (Inr [notification_of ''1'' ''Add new feature'' 10, notification_of ''2'' ''Fix typo'' 20],
             \<lparr>remote = (), stdin = ''y'', events = [CallList 1, CallList 2]\<rparr>)
   \<and> MarkThreadRead (two_pages True) () ''2'' = (Some (Error ''mark failed''), ())
   \<and> main lib_small (two_pages True) ''token'' (start ''y'') =
       Some (Returned \<lparr>remote = (), stdin = [],
         events = [CallList 1, CallList 2] @
           [PrintSeparator, PrintNotification ''Fix typo'' ''2'', PrintRepo [], PrintType [],
            PrintURL [], PrintUpdated 20, PrintPrompt,
            CallMarkThreadRead ''2'', LogFailedToMark (Error ''mark failed''),
            PrintSeparator, PrintNotification ''Add new feature'' ''1'', PrintRepo [], PrintType [],
            PrintURL [], PrintUpdated 10, PrintPrompt, PrintSkipped] @ [PrintDone]\<rparr>)
   \<and> marks_answered (two_pages True) ()
           [PrintSeparator, PrintNotification ''Fix typo'' ''2'', PrintRepo [], PrintType [],
            PrintURL [], PrintUpdated 20, PrintPrompt,
            CallMarkThreadRead ''2'', LogFailedToMark (Error ''mark failed''),
            PrintSeparator, PrintNotification ''Add new feature'' ''1'', PrintRepo [], PrintType [],
            PrintURL [], PrintUpdated 10, PrintPrompt, PrintSkipped] ()
   \<and> pass_heads
           [PrintSeparator, PrintNotification ''Fix typo'' ''2'', PrintRepo [], PrintType [],
            PrintURL [], PrintUpdated 20, PrintPrompt,
            CallMarkThreadRead ''2'', LogFailedToMark (Error ''mark failed''),
            PrintSeparator, PrintNotification ''Add new feature'' ''1'', PrintRepo [], PrintType [],
            PrintURL [], PrintUpdated 10, PrintPrompt, PrintSkipped]
         = [pass_head (notification_of ''2'' ''Fix typo'' 20),
            pass_head (notification_of ''1'' ''Add new feature'' 10)]
   \<and> markAsRead (two_pages True) (notification_of ''2'' ''Fix typo'' 20) (start []) =
       \<lparr>remote = (), stdin = [],
          events = [CallMarkThreadRead ''2'', LogFailedToMark (Error ''mark failed'')]\<rparr>"
proof -
  let ?new = "[PrintSeparator, PrintNotification ''Fix typo'' ''2'', PrintRepo [], PrintType [],
            PrintURL [], PrintUpdated 20, PrintPrompt,
            CallMarkThreadRead ''2'', LogFailedToMark (Error ''mark failed''),
            PrintSeparator, PrintNotification ''Add new feature'' ''1'', PrintRepo [], PrintType [],
            PrintURL [], PrintUpdated 10, PrintPrompt, PrintSkipped]"
  have m: "MarkThreadRead (two_pages True) () ''2'' = (Some (Error ''mark failed''), ())"
    by (simp add: two_pages_def)
  have i: "GetID (notification_of ''2'' ''Fix typo'' 20) = ''2''"
    by (simp add: GetID_def notification_of_def)
  have run: "main lib_small (two_pages True) ''token'' (start ''y'') =
       Some (Returned \<lparr>remote = (), stdin = [], events = [CallList 1, CallList 2] @ ?new @ [PrintDone]\<rparr>)"
    by code_simp
  have ord: "visit_order (slices_Reverse (sort_Slice lib_small updated_After
         [notification_of ''1'' ''Add new feature'' 10, notification_of ''2'' ''Fix typo'' 20]))
       = [notification_of ''2'' ''Fix typo'' 20, notification_of ''1'' ''Add new feature'' 10]"
    by code_simp
  note t = mark_failure_not_fatal [OF sort_Slice_contract_lib_small _ two_pages_fetch [of True "''y''"],
      where token = "''token''" and v = "start []" and n = "notification_of ''2'' ''Fix typo'' 20"
        and err = "Error ''mark failed''" and s' = "()"]
  from t obtain w' new where
    r: "main lib_small (two_pages True) ''token'' (start ''y'') = Some (Returned w')"
      "events w' = events \<lparr>remote = (), stdin = ''y'', events = [CallList 1, CallList 2]\<rparr> @ new @ [PrintDone]"
      "pass_heads new = map pass_head (visit_order (slices_Reverse (sort_Slice lib_small updated_After
         [notification_of ''1'' ''Add new feature'' 10, notification_of ''2'' ''Fix typo'' 20])))"
      "marks_answered (two_pages True)
         (remote \<lparr>remote = (), stdin = ''y'', events = [CallList 1, CallList 2]\<rparr>) new (remote w')"
    by auto
  from r(1) run have w': "w' = \<lparr>remote = (), stdin = [], events = [CallList 1, CallList 2] @ ?new @ [PrintDone]\<rparr>"
    by simp
  with r(2) have new: "new = ?new" by simp
  from r(3) have a: "pass_heads ?new = [pass_head (notification_of ''2'' ''Fix typo'' 20),
            pass_head (notification_of ''1'' ''Add new feature'' 10)]"
    unfolding new ord by simp
  from r(4) have b: "marks_answered (two_pages True) () ?new ()"
    unfolding new by simp
  from t m have c: "markAsRead (two_pages True) (notification_of ''2'' ''Fix typo'' 20) (start []) =
       \<lparr>remote = (), stdin = [],
          events = [CallMarkThreadRead ''2'', LogFailedToMark (Error ''mark failed'')]\<rparr>"
    by (simp add: i start_def)
  from sort_Slice_contract_lib_small two_pages_fetch [of True "''y''"] m run a b c
  show ?thesis by blast
qed

text \<open>
  Claim C1 says that the notifications are reviewed oldest first. They are not: the loop
  runs from the last index of the ascending slice down to 0 (its comment says
  \<open>newest first\<close>). With a notification of time 10 and one of time 20 fetched, the
  one of time 20 is reviewed first.
\<close>

theorem review_order_counterexample:
  "main lib_small (two_pages False) ''token'' (start []) =
     Some (Returned \<lparr>remote = (), stdin = [],
       events =
         [CallList 1, CallList 2,
          PrintSeparator, PrintNotification ''Fix typo'' ''2'', PrintRepo [], PrintType [],
          PrintURL [], PrintUpdated 20, PrintPrompt, PrintSkipped,
          PrintSeparator, PrintNotification ''Add new feature'' ''1'', PrintRepo [], PrintType [],
          PrintURL [], PrintUpdated 10, PrintPrompt, PrintSkipped,
          PrintDone]\<rparr>)
   \<and> visit_order (slices_Reverse (sort_Slice lib_small updated_After
            [notification_of ''1'' ''Add new feature'' 10, notification_of ''2'' ''Fix typo'' 20]))
        = [notification_of ''2'' ''Fix typo'' 20, notification_of ''1'' ''Add new feature'' 10]
   \<and> \<not> GetUpdatedAt (notification_of ''2'' ''Fix typo'' 20)
          \<le> GetUpdatedAt (notification_of ''1'' ''Add new feature'' 10)
   \<and> \<not> oldest_first (visit_order (slices_Reverse (sort_Slice lib_small updated_After
            [notification_of ''1'' ''Add new feature'' 10, notification_of ''2'' ''Fix typo'' 20])))"
  by code_simp

text \<open>
  Claim C1, amended. After a fetch that returned a list which is not empty, \<open>main\<close>
  reviews the notifications in the order \<open>order\<close>, which holds every fetched notification
  once and is descending in the last-updated time: of two notifications, the one reviewed
  first has the greater or equal time (newest first).
\<close>

theorem review_newest_first:
  assumes "sort_Slice_contract L" "token \<noteq> []"
    and "fetchAllUnread client w = Some (Inr fetched, w1)" "fetched \<noteq> []"
    and "order = visit_order (slices_Reverse (sort_Slice L updated_After fetched))"
  shows "(\<exists>w2. review_all L client order w1 = Some w2
            \<and> main L client token w = Some (Returned (emit PrintDone w2)))
     \<and> mset order = mset fetched
     \<and> (\<forall>i j. i < j \<and> j < length order \<longrightarrow>
           GetUpdatedAt (order ! j) \<le> GetUpdatedAt (order ! i))"
proof (intro conjI)
  obtain w2 where r: "review_all L client order w1 = Some w2"
    using review_all_effect by blast
  then show "\<exists>w2. review_all L client order w1 = Some w2
            \<and> main L client token w = Some (Returned (emit PrintDone w2))"
    using main_reviews [OF assms(1-4)] by (simp add: assms(5))
next
  show "mset order = mset fetched"
    using assms(1) by (simp add: assms(5) visit_order_rev slices_Reverse_def mset_sort_Slice)
next
  have "newest_first order"
    using newest_first_sort_Slice [OF assms(1), of fetched]
    by (simp add: assms(5) visit_order_rev slices_Reverse_def)
  then show "\<forall>i j. i < j \<and> j < length order \<longrightarrow>
           GetUpdatedAt (order ! j) \<le> GetUpdatedAt (order ! i)"
    by (simp add: newest_first_def sorted_wrt_iff_nth_less)
qed

text \<open>
  The run on the two pages above: the notification of time 20 comes before that of
  time 10.
\<close>

theorem review_newest_first_witness:
  "sort_Slice_contract lib_small
   \<and> fetchAllUnread (two_pages False) (start []) =
       Some (Inr [notification_of ''1'' ''Add new feature'' 10, notification_of ''2'' ''Fix typo'' 20],
             \<lparr>remote = (), stdin = [], events = [CallList 1, CallList 2]\<rparr>)
   \<and> [notification_of ''2'' ''Fix typo'' 20, notification_of ''1'' ''Add new feature'' 10] =
       visit_order (slices_Reverse (sort_Slice lib_small updated_After
         [notification_of ''1'' ''Add new feature'' 10, notification_of ''2'' ''Fix typo'' 20]))
   \<and> GetUpdatedAt (notification_of ''1'' ''Add new feature'' 10)
        \<le> GetUpdatedAt (notification_of ''2'' ''Fix typo'' 20)"
proof -
  have o: "[notification_of ''2'' ''Fix typo'' 20, notification_of ''1'' ''Add new feature'' 10] =
       visit_order (slices_Reverse (sort_Slice lib_small updated_After
         [notification_of ''1'' ''Add new feature'' 10, notification_of ''2'' ''Fix typo'' 20]))"
    by code_simp
  note t = review_newest_first [OF sort_Slice_contract_lib_small _ two_pages_fetch [of False "[]"] _ o,
      where token = "''token''"]
  from t have "\<forall>i j. i < j \<and> j < length [notification_of ''2'' ''Fix typo'' 20, notification_of ''1'' ''Add new feature'' 10] \<longrightarrow>
           GetUpdatedAt ([notification_of ''2'' ''Fix typo'' 20, notification_of ''1'' ''Add new feature'' 10] ! j)
             \<le> GetUpdatedAt ([notification_of ''2'' ''Fix typo'' 20, notification_of ''1'' ''Add new feature'' 10] ! i)"
    by simp
  from this [rule_format, of 0 1]
  have "GetUpdatedAt (notification_of ''1'' ''Add new feature'' 10)
        \<le> GetUpdatedAt (notification_of ''2'' ''Fix typo'' 20)"
    by simp
  with sort_Slice_contract_lib_small two_pages_fetch [of False "[]"] o show ?thesis
    by blast
qed

text \<open>
  Claim C5 says that the sorter keeps the fetched order of notifications with equal
  times. It does not: the descending insertion sort leaves them in place and the
  reversal that follows turns them around.
\<close>

theorem sorter_stable_counterexample:
  "GetUpdatedAt (notification_of ''a'' ''First'' 5) = GetUpdatedAt (notification_of ''b'' ''Second'' 5)
   \<and> slices_Reverse (sort_Slice lib_small updated_After
         [notification_of ''a'' ''First'' 5, notification_of ''b'' ''Second'' 5])
       = [notification_of ''b'' ''Second'' 5, notification_of ''a'' ''First'' 5]
   \<and> notification_of ''a'' ''First'' 5 \<noteq> notification_of ''b'' ''Second'' 5"
  by code_simp

text \<open>
  Claim C5, amended. The sorted slice is a rearrangement of the fetched list in which
  every element's time is at most that of its successor. It is not stable: for a list of
  at most 12 notifications, those of one and the same time come out in the reverse of
  their fetched order.
\<close>

theorem sorter_ascending:
  assumes "sort_Slice_contract L"
    and "out = slices_Reverse (sort_Slice L updated_After fetched)"
  shows "mset out = mset fetched
     \<and> (\<forall>i. Suc i < length out \<longrightarrow>
           GetUpdatedAt (out ! i) \<le> GetUpdatedAt (out ! Suc i))
     \<and> (length fetched \<le> 12 \<longrightarrow>
           (\<forall>t. filter (\<lambda>n. GetUpdatedAt n = t) out
                  = rev (filter (\<lambda>n. GetUpdatedAt n = t) fetched)))"
proof (intro conjI)
  show "mset out = mset fetched"
    using assms(1) by (simp add: assms(2) slices_Reverse_def mset_sort_Slice)
next
  have "oldest_first out"
    using newest_first_sort_Slice [OF assms(1), of fetched]
    by (simp add: assms(2) slices_Reverse_def oldest_first_rev)
  then show "\<forall>i. Suc i < length out \<longrightarrow>
           GetUpdatedAt (out ! i) \<le> GetUpdatedAt (out ! Suc i)"
    by (simp add: oldest_first_def sorted_wrt_iff_nth_less)
next
  show "length fetched \<le> 12 \<longrightarrow>
           (\<forall>t. filter (\<lambda>n. GetUpdatedAt n = t) out
                  = rev (filter (\<lambda>n. GetUpdatedAt n = t) fetched))"
    by (simp add: assms(2) slices_Reverse_def sort_Slice_def rev_filter [symmetric]
        filter_insertionSort_func_ties)
qed

text \<open>
  Three notifications, two of them of time 5.
\<close>

theorem sorter_ascending_witness:
  "sort_Slice_contract lib_small
   \<and> [notification_of ''c'' ''Third'' 3, notification_of ''b'' ''Second'' 5, notification_of ''a'' ''First'' 5]
       = slices_Reverse (sort_Slice lib_small updated_After
           [notification_of ''a'' ''First'' 5, notification_of ''b'' ''Second'' 5, notification_of ''c'' ''Third'' 3])
   \<and> GetUpdatedAt (notification_of ''c'' ''Third'' 3) \<le> GetUpdatedAt (notification_of ''b'' ''Second'' 5)
   \<and> filter (\<lambda>n. GetUpdatedAt n = 5)
        [notification_of ''c'' ''Third'' 3, notification_of ''b'' ''Second'' 5, notification_of ''a'' ''First'' 5]
       = rev (filter (\<lambda>n. GetUpdatedAt n = 5)
           [notification_of ''a'' ''First'' 5, notification_of ''b'' ''Second'' 5, notification_of ''c'' ''Third'' 3])"
proof -
  have s: "[notification_of ''c'' ''Third'' 3, notification_of ''b'' ''Second'' 5, notification_of ''a'' ''First'' 5]
       = slices_Reverse (sort_Slice lib_small updated_After
           [notification_of ''a'' ''First'' 5, notification_of ''b'' ''Second'' 5, notification_of ''c'' ''Third'' 3])"
    by code_simp
  note t = sorter_ascending [OF sort_Slice_contract_lib_small s]
  from t [THEN conjunct2, THEN conjunct1, rule_format, of 0]
  have a: "GetUpdatedAt (notification_of ''c'' ''Third'' 3) \<le> GetUpdatedAt (notification_of ''b'' ''Second'' 5)"
    by simp
  from t [THEN conjunct2, THEN conjunct2, rule_format, of 5]
  have b: "filter (\<lambda>n. GetUpdatedAt n = 5)
        [notification_of ''c'' ''Third'' 3, notification_of ''b'' ''Second'' 5, notification_of ''a'' ''First'' 5]
       = rev (filter (\<lambda>n. GetUpdatedAt n = 5)
           [notification_of ''a'' ''First'' 5, notification_of ''b'' ''Second'' 5, notification_of ''c'' ''Third'' 3])"
    by simp
  from sort_Slice_contract_lib_small s a b show ?thesis by blast
qed

end
